theory Spec2Isabelle
  imports Complex_Main "HOL-Library.Word" "HOL-Library.Monad_Syntax"
begin

unbundle bit_operations_syntax

section \<open>Runtime utilities of \<^verbatim>\<open>hipSYCL/runtime/util.hpp\<close>\<close>

text \<open>
  The header declares the class template \<^verbatim>\<open>static_array<Dim>\<close> (aliased as
  \<^verbatim>\<open>id<Dim>\<close> and \<^verbatim>\<open>range<Dim>\<close>), the conversions between a \<^verbatim>\<open>Dim\<close>-dimensional
  array and its three-dimensional form, and four helpers on \<^verbatim>\<open>std::uint64_t\<close>.

  Conventions of the embedding.
  \<^item> \<^verbatim>\<open>std::size_t\<close> and \<^verbatim>\<open>std::uint64_t\<close> are 64-bit words: \<open>+\<close>, \<open>-\<close> and \<open>*\<close> wrap
    around, \<open>div\<close> and \<open>mod\<close> are the unsigned operations.
  \<^item> The template parameter \<^verbatim>\<open>Dim\<close> is an explicit first argument. A value of
    \<^verbatim>\<open>static_array<Dim>\<close> is a record whose field \<open>data\<close> (the private member
    \<^verbatim>\<open>_data\<close>, a \<^verbatim>\<open>std::array<std::size_t, Dim>\<close>) is a list of \<open>Dim\<close> words;
    \<open>has_dim Dim a\<close> says so.
  \<^item> A result of type \<open>'a option\<close> is \<open>None\<close> where C++ gives no defined result: an
    index outside the array, a division or remainder by zero, a \<^verbatim>\<open>static_assert\<close> that
    fails or a constructor that \<^verbatim>\<open>enable_if\<close> removes.
  \<^item> A default-initialised \<^verbatim>\<open>static_array\<close> holds indeterminate values. The function
    \<open>junk\<close> passed to a constructor gives the content of each cell before the first
    write; the theorems hold for every \<open>junk\<close>.
\<close>

type_synonym size_t = "64 word"
type_synonym uint64_t = "64 word"

subsection \<open>The class \<^verbatim>\<open>static_array<Dim>\<close>\<close>

record static_array =
  data :: "size_t list"

definition has_dim :: "nat \<Rightarrow> static_array \<Rightarrow> bool" where
  "has_dim Dim a \<longleftrightarrow> length (data a) = Dim"

text \<open>\<^verbatim>\<open>static_array() = default;\<close> the cells keep whatever the storage holds.\<close>

definition static_array_default :: "nat \<Rightarrow> (nat \<Rightarrow> size_t) \<Rightarrow> static_array" where
  "static_array_default Dim junk = \<lparr>data = map junk [0..<Dim]\<rparr>"

text \<open>
  \<^verbatim>\<open>static_array(std::size_t dim0) { for (int i = 0; i < Dim; ++i) _data[i] = dim0; }\<close>
\<close>

function broadcast_loop :: "nat \<Rightarrow> size_t \<Rightarrow> nat \<Rightarrow> size_t list \<Rightarrow> size_t list" where
  "broadcast_loop Dim dim0 i d =
     (if i < Dim then broadcast_loop Dim dim0 (Suc i) (d[i := dim0]) else d)"
  by pat_completeness auto
termination
  by (relation "measure (\<lambda>(Dim, dim0, i, d). Dim - i)") auto

declare broadcast_loop.simps [simp del]

definition static_array_1 :: "nat \<Rightarrow> (nat \<Rightarrow> size_t) \<Rightarrow> size_t \<Rightarrow> static_array" where
  "static_array_1 Dim junk dim0 =
     \<lparr>data = broadcast_loop Dim dim0 0 (data (static_array_default Dim junk))\<rparr>"

text \<open>
  \<^verbatim>\<open>static_array(std::size_t dim0, std::size_t dim1) : _data{dim0, dim1}\<close>, enabled
  only for \<^verbatim>\<open>Dim == 2\<close>, and the three-argument constructor, enabled only for
  \<^verbatim>\<open>Dim == 3\<close>.
\<close>

definition static_array_2 :: "nat \<Rightarrow> size_t \<Rightarrow> size_t \<Rightarrow> static_array option" where
  "static_array_2 Dim dim0 dim1 =
     (if Dim = 2 then Some \<lparr>data = [dim0, dim1]\<rparr> else None)"

definition static_array_3 ::
  "nat \<Rightarrow> size_t \<Rightarrow> size_t \<Rightarrow> size_t \<Rightarrow> static_array option" where
  "static_array_3 Dim dim0 dim1 dim2 =
     (if Dim = 3 then Some \<lparr>data = [dim0, dim1, dim2]\<rparr> else None)"

text \<open>\<^verbatim>\<open>operator==\<close> compares the two \<^verbatim>\<open>std::array\<close>s; \<^verbatim>\<open>operator!=\<close> negates it.\<close>

definition operator_eq :: "static_array \<Rightarrow> static_array \<Rightarrow> bool" where
  "operator_eq a b \<longleftrightarrow> data a = data b"

definition operator_neq :: "static_array \<Rightarrow> static_array \<Rightarrow> bool" where
  "operator_neq a b \<longleftrightarrow> \<not> operator_eq a b"

text \<open>
  \<^verbatim>\<open>operator[](int dim)\<close> and \<^verbatim>\<open>get(int dim)\<close> return \<^verbatim>\<open>_data[dim]\<close> with no bounds
  check: an index outside \<open>[0, Dim)\<close> has no defined result.
\<close>

definition subscript :: "static_array \<Rightarrow> int \<Rightarrow> size_t option" where
  "subscript a k =
     (if 0 \<le> k \<and> k < int (length (data a)) then Some (data a ! nat k) else None)"

definition get :: "static_array \<Rightarrow> int \<Rightarrow> size_t option" where
  "get a k =
     (if 0 \<le> k \<and> k < int (length (data a)) then Some (data a ! nat k) else None)"

text \<open>
  The scalar operators the two macros are instantiated with. On \<^verbatim>\<open>std::size_t\<close>,
  \<^verbatim>\<open>/\<close> and \<^verbatim>\<open>%\<close> by zero are undefined.
\<close>

datatype binop = OpAdd | OpSub | OpMul | OpDiv | OpMod

fun scalar_op :: "binop \<Rightarrow> size_t \<Rightarrow> size_t \<Rightarrow> size_t option" where
  "scalar_op OpAdd x y = Some (x + y)"
| "scalar_op OpSub x y = Some (x - y)"
| "scalar_op OpMul x y = Some (x * y)"
| "scalar_op OpDiv x y = (if y = 0 then None else Some (x div y))"
| "scalar_op OpMod x y = (if y = 0 then None else Some (x mod y))"

text \<open>
  \<^verbatim>\<open>HIPSYCL_RT_SARRAY_MAKE_INPLACE_OP(op)\<close>:
  \<^verbatim>\<open>for (int i = 0; i < Dim; ++i) _data[i] op b._data[i]; return *this;\<close>
  The argument is a reference, so \<open>b\<close> may be the object itself (\<^verbatim>\<open>a += a\<close>): the
  operand \<open>This\<close> reads the cells of \<open>b\<close> from the array being updated, \<open>Other b\<close>
  from a distinct object.
\<close>

datatype operand = Other static_array | This

fun operand_data :: "operand \<Rightarrow> size_t list \<Rightarrow> size_t list" where
  "operand_data (Other b) d = data b"
| "operand_data This d = d"

function inplace_loop ::
  "binop \<Rightarrow> nat \<Rightarrow> nat \<Rightarrow> size_t list \<Rightarrow> operand \<Rightarrow> size_t list option" where
  "inplace_loop op Dim i d b =
     (if i < Dim then
        (case scalar_op op (d ! i) (operand_data b d ! i) of
           None \<Rightarrow> None
         | Some v \<Rightarrow> inplace_loop op Dim (Suc i) (d[i := v]) b)
      else Some d)"
  by pat_completeness auto
termination
  by (relation "measure (\<lambda>(op, Dim, i, d, b). Dim - i)") auto

declare inplace_loop.simps [simp del]

definition inplace_op :: "binop \<Rightarrow> nat \<Rightarrow> static_array \<Rightarrow> operand \<Rightarrow> static_array option" where
  "inplace_op op Dim a b =
     map_option (\<lambda>d. \<lparr>data = d\<rparr>) (inplace_loop op Dim 0 (data a) b)"

text \<open>
  \<^verbatim>\<open>HIPSYCL_RT_SARRAY_MAKE_OOPLACE_OP(op)\<close>:
  \<^verbatim>\<open>static_array<Dim> result;
  for (int i = 0; i < Dim; ++i) result._data[i] = a._data[i] op b._data[i];
  return result;\<close>
\<close>

function ooplace_loop ::
  "binop \<Rightarrow> nat \<Rightarrow> nat \<Rightarrow> size_t list \<Rightarrow> size_t list \<Rightarrow> size_t list \<Rightarrow> size_t list option"
  where
  "ooplace_loop op Dim i result a b =
     (if i < Dim then
        (case scalar_op op (a ! i) (b ! i) of
           None \<Rightarrow> None
         | Some v \<Rightarrow> ooplace_loop op Dim (Suc i) (result[i := v]) a b)
      else Some result)"
  by pat_completeness auto
termination
  by (relation "measure (\<lambda>(op, Dim, i, result, a, b). Dim - i)") auto

declare ooplace_loop.simps [simp del]

definition ooplace_op ::
  "binop \<Rightarrow> nat \<Rightarrow> (nat \<Rightarrow> size_t) \<Rightarrow> static_array \<Rightarrow> static_array \<Rightarrow> static_array option"
  where
  "ooplace_op op Dim junk a b =
     map_option (\<lambda>d. \<lparr>data = d\<rparr>)
       (ooplace_loop op Dim 0 (data (static_array_default Dim junk)) (data a) (data b))"

text \<open>
  \<^verbatim>\<open>size()\<close>:
  \<^verbatim>\<open>std::size_t s = 1; for (int i = 0; i < Dim; ++i) s *= _data[i]; return s;\<close>
\<close>

function size_loop :: "nat \<Rightarrow> nat \<Rightarrow> size_t list \<Rightarrow> size_t \<Rightarrow> size_t" where
  "size_loop Dim i d s = (if i < Dim then size_loop Dim (Suc i) d (s * d ! i) else s)"
  by pat_completeness auto
termination
  by (relation "measure (\<lambda>(Dim, i, d, s). Dim - i)") auto

declare size_loop.simps [simp del]

definition size_sa :: "nat \<Rightarrow> static_array \<Rightarrow> size_t" where
  "size_sa Dim a = size_loop Dim 0 (data a) 1"

subsection \<open>Embedding into three dimensions and extraction\<close>

text \<open>
  \<^verbatim>\<open>embed_in_id3\<close> and \<^verbatim>\<open>embed_in_range3\<close>: a \<^verbatim>\<open>static_assert\<close> on
  \<^verbatim>\<open>Dim >= 1 && Dim <= 3\<close>, then one \<^verbatim>\<open>if constexpr\<close> branch per dimension, each
  building an \<^verbatim>\<open>id<3>\<close> with the three-argument constructor.
\<close>

definition embed_in_id3 :: "nat \<Rightarrow> static_array \<Rightarrow> static_array option" where
  "embed_in_id3 Dim idx =
     (if \<not> (1 \<le> Dim \<and> Dim \<le> 3) then None
      else if Dim = 1 then
        do { x \<leftarrow> subscript idx 0; static_array_3 3 0 0 x }
      else if Dim = 2 then
        do { x \<leftarrow> subscript idx 0; y \<leftarrow> subscript idx 1; static_array_3 3 0 x y }
      else if Dim = 3 then Some idx
      else None)"

definition embed_in_range3 :: "nat \<Rightarrow> static_array \<Rightarrow> static_array option" where
  "embed_in_range3 Dim r =
     (if \<not> (1 \<le> Dim \<and> Dim \<le> 3) then None
      else if Dim = 1 then
        do { x \<leftarrow> subscript r 0; static_array_3 3 1 1 x }
      else if Dim = 2 then
        do { x \<leftarrow> subscript r 0; y \<leftarrow> subscript r 1; static_array_3 3 1 x y }
      else if Dim = 3 then Some r
      else None)"

text \<open>
  \<^verbatim>\<open>extract_from_id3<Dim>\<close> and \<^verbatim>\<open>extract_from_range3<Dim>\<close>: a \<^verbatim>\<open>static_assert\<close>
  on \<^verbatim>\<open>Dim > 0 && Dim <= 3\<close>; \<^verbatim>\<open>id<1>{idx[2]}\<close> is the one-argument constructor,
  \<^verbatim>\<open>id<2>{idx[1], idx[2]}\<close> the two-argument one, and the last branch is a plain
  \<^verbatim>\<open>else\<close>. The statement after the branches is never reached.
\<close>

definition extract_from_id3 ::
  "nat \<Rightarrow> (nat \<Rightarrow> size_t) \<Rightarrow> static_array \<Rightarrow> static_array option" where
  "extract_from_id3 Dim junk idx =
     (if \<not> (0 < Dim \<and> Dim \<le> 3) then None
      else if Dim = 1 then
        do { x \<leftarrow> subscript idx 2; Some (static_array_1 1 junk x) }
      else if Dim = 2 then
        do { x \<leftarrow> subscript idx 1; y \<leftarrow> subscript idx 2; static_array_2 2 x y }
      else Some idx)"

definition extract_from_range3 ::
  "nat \<Rightarrow> (nat \<Rightarrow> size_t) \<Rightarrow> static_array \<Rightarrow> static_array option" where
  "extract_from_range3 Dim junk r =
     (if \<not> (0 < Dim \<and> Dim \<le> 3) then None
      else if Dim = 1 then
        do { x \<leftarrow> subscript r 2; Some (static_array_1 1 junk x) }
      else if Dim = 2 then
        do { x \<leftarrow> subscript r 1; y \<leftarrow> subscript r 2; static_array_2 2 x y }
      else Some r)"

subsection \<open>Integer helpers\<close>

text \<open>
  \<^verbatim>\<open>next_power_of_2\<close>: six steps \<^verbatim>\<open>a |= (a >> k)\<close> for \<open>k = 1, 2, 4, 8, 16, 32\<close>,
  then \<^verbatim>\<open>return a + 1\<close>.
\<close>

definition next_power_of_2 :: "uint64_t \<Rightarrow> uint64_t" where
  "next_power_of_2 a0 =
     (let a1 = a0 OR drop_bit 1 a0;
          a2 = a1 OR drop_bit 2 a1;
          a3 = a2 OR drop_bit 4 a2;
          a4 = a3 OR drop_bit 8 a3;
          a5 = a4 OR drop_bit 16 a4;
          a6 = a5 OR drop_bit 32 a5
      in a6 + 1)"

definition power_of_2_ceil :: "uint64_t \<Rightarrow> uint64_t" where
  "power_of_2_ceil a = (if a = 0 then 0 else next_power_of_2 (a - 1))"

text \<open>
  \<^verbatim>\<open>ceil_division\<close> returns \<^verbatim>\<open>(a + b - 1) / b\<close> and \<^verbatim>\<open>next_multiple_of\<close> returns
  \<^verbatim>\<open>ceil_division(a, b) * b\<close>; the division is undefined for \<^verbatim>\<open>b == 0\<close>.
\<close>

definition ceil_division :: "uint64_t \<Rightarrow> uint64_t \<Rightarrow> uint64_t option" where
  "ceil_division a b = (if b = 0 then None else Some ((a + b - 1) div b))"

definition next_multiple_of :: "uint64_t \<Rightarrow> uint64_t \<Rightarrow> uint64_t option" where
  "next_multiple_of a b = do { c \<leftarrow> ceil_division a b; Some (c * b) }"

section \<open>Properties of the integer helpers\<close>

subsection \<open>Bit smearing\<close>

lemma smear_step:
  fixes x y :: "'a::len word"
  assumes "\<And>i. bit y i \<longleftrightarrow> (\<exists>d<m. bit x (i + d))"
  shows "bit (y OR drop_bit m y) i \<longleftrightarrow> (\<exists>d<2 * m. bit x (i + d))"
proof -
  have "bit (y OR drop_bit m y) i \<longleftrightarrow> bit y i \<or> bit y (m + i)"
    by (simp add: bit_or_iff bit_drop_bit_eq)
  also have "\<dots> \<longleftrightarrow> (\<exists>d<m. bit x (i + d)) \<or> (\<exists>d<m. bit x (m + i + d))"
    by (simp add: assms)
  also have "\<dots> \<longleftrightarrow> (\<exists>d<2 * m. bit x (i + d))"
  proof
    assume "(\<exists>d<m. bit x (i + d)) \<or> (\<exists>d<m. bit x (m + i + d))"
    then show "\<exists>d<2 * m. bit x (i + d)"
    proof
      assume "\<exists>d<m. bit x (i + d)"
      then obtain d where "d < m" "bit x (i + d)" by blast
      then show ?thesis by (intro exI [of _ d]) simp
    next
      assume "\<exists>d<m. bit x (m + i + d)"
      then obtain d where "d < m" "bit x (m + i + d)" by blast
      then show ?thesis by (intro exI [of _ "m + d"]) (simp add: ac_simps)
    qed
  next
    assume "\<exists>d<2 * m. bit x (i + d)"
    then obtain d where d: "d < 2 * m" "bit x (i + d)" by blast
    show "(\<exists>d<m. bit x (i + d)) \<or> (\<exists>d<m. bit x (m + i + d))"
    proof (cases "d < m")
      case True
      with d show ?thesis by blast
    next
      case False
      with d have "d - m < m" "bit x (m + i + (d - m))" by (simp_all add: ac_simps)
      then show ?thesis by blast
    qed
  qed
  finally show ?thesis .
qed

lemma next_power_of_2_smeared:
  "\<exists>s. next_power_of_2 a = s + 1 \<and> (\<forall>i. bit s i \<longleftrightarrow> (\<exists>j\<ge>i. bit a j))"
proof -
  define a1 where "a1 = a OR drop_bit 1 a"
  define a2 where "a2 = a1 OR drop_bit 2 a1"
  define a3 where "a3 = a2 OR drop_bit 4 a2"
  define a4 where "a4 = a3 OR drop_bit 8 a3"
  define a5 where "a5 = a4 OR drop_bit 16 a4"
  define a6 where "a6 = a5 OR drop_bit 32 a5"
  have b0: "bit a i \<longleftrightarrow> (\<exists>d<1. bit a (i + d))" for i by simp
  have b1: "bit a1 i \<longleftrightarrow> (\<exists>d<2. bit a (i + d))" for i
    unfolding a1_def using smear_step [of a 1 a i, OF b0] by simp
  have b2: "bit a2 i \<longleftrightarrow> (\<exists>d<4. bit a (i + d))" for i
    unfolding a2_def using smear_step [of a1 2 a i, OF b1] by simp
  have b3: "bit a3 i \<longleftrightarrow> (\<exists>d<8. bit a (i + d))" for i
    unfolding a3_def using smear_step [of a2 4 a i, OF b2] by simp
  have b4: "bit a4 i \<longleftrightarrow> (\<exists>d<16. bit a (i + d))" for i
    unfolding a4_def using smear_step [of a3 8 a i, OF b3] by simp
  have b5: "bit a5 i \<longleftrightarrow> (\<exists>d<32. bit a (i + d))" for i
    unfolding a5_def using smear_step [of a4 16 a i, OF b4] by simp
  have b6: "bit a6 i \<longleftrightarrow> (\<exists>d<64. bit a (i + d))" for i
    unfolding a6_def using smear_step [of a5 32 a i, OF b5] by simp
  have ge: "bit a6 i \<longleftrightarrow> (\<exists>j\<ge>i. bit a j)" for i
  proof
    assume "bit a6 i"
    then obtain d where "bit a (i + d)" by (auto simp: b6)
    then show "\<exists>j\<ge>i. bit a j" by (intro exI [of _ "i + d"]) simp
  next
    assume "\<exists>j\<ge>i. bit a j"
    then obtain j where j: "i \<le> j" "bit a j" by blast
    then have "j < 64" using bit_imp_le_length [of a j] by simp
    with j have "j - i < 64" "bit a (i + (j - i))" by simp_all
    then show "bit a6 i" unfolding b6 by blast
  qed
  have "next_power_of_2 a = a6 + 1"
    by (simp add: next_power_of_2_def Let_def a1_def a2_def a3_def a4_def a5_def a6_def)
  with ge show ?thesis by blast
qed

lemma bit_word_bounds:
  fixes a :: "'a::len word"
  assumes "unat a < 2 ^ n" "bit a j"
  shows "j < n"
proof (rule ccontr)
  assume "\<not> j < n"
  then have "(2::nat) ^ n \<le> 2 ^ j" by simp
  with assms(1) have "unat a < 2 ^ j" by linarith
  then have "unat a div 2 ^ j = 0" by simp
  then have "\<not> bit (unat a) j" by (simp add: bit_iff_odd)
  with assms(2) show False by (simp add: bit_unsigned_iff)
qed

lemma bit_word_top:
  fixes a :: "'a::len word"
  assumes "unat a < 2 ^ Suc n" "2 ^ n \<le> unat a"
  shows "bit a n"
proof -
  have "unat a div 2 ^ n = 1"
    using assms by (simp add: div_nat_eqI)
  then have "bit (unat a) n" by (simp add: bit_iff_odd)
  then show ?thesis by (simp add: bit_unsigned_iff)
qed

lemma unat_two_power:
  assumes "n < 64"
  shows "unat ((2 :: 64 word) ^ n) = 2 ^ n"
proof -
  have "unat (word_of_nat (2 ^ n) :: 64 word) = 2 ^ n mod 2 ^ LENGTH(64)"
    by (rule unat_of_nat)
  also have "\<dots> = 2 ^ n"
    using power_strict_increasing [of n 64 "2::nat"] assms by simp
  finally show ?thesis by simp
qed

text \<open>
  When \<open>n\<close> is the bit length of \<open>a\<close>, the six steps set every bit below \<open>n\<close>, and
  adding one gives \<open>2 ^ n\<close> (which is \<open>0\<close> in 64 bits for \<open>n = 64\<close>).
\<close>

lemma next_power_of_2_bitlen:
  assumes "unat a < 2 ^ n" and "n = 0 \<or> 2 ^ (n - 1) \<le> unat a" and "n \<le> 64"
  shows "next_power_of_2 a = 2 ^ n"
proof -
  obtain s where s: "next_power_of_2 a = s + 1" "\<And>i. bit s i \<longleftrightarrow> (\<exists>j\<ge>i. bit a j)"
    using next_power_of_2_smeared [of a] by blast
  have "s = mask n"
  proof (rule bit_word_eqI)
    fix i
    assume i: "i < LENGTH(64)"
    show "bit s i \<longleftrightarrow> bit (mask n :: 64 word) i"
    proof
      assume "bit s i"
      then obtain j where "i \<le> j" "bit a j" using s(2) by blast
      with bit_word_bounds [OF assms(1)] have "i < n" by fastforce
      with i show "bit (mask n :: 64 word) i" by (simp add: bit_mask_iff)
    next
      assume "bit (mask n :: 64 word) i"
      then have "i < n" by (simp add: bit_mask_iff)
      then obtain m where m: "n = Suc m" by (cases n) auto
      with assms have "bit a m" by (intro bit_word_top) auto
      moreover have "i \<le> m" using \<open>i < n\<close> m by simp
      ultimately show "bit s i" using s(2) by blast
    qed
  qed
  then show ?thesis using s(1) by (simp add: mask_eq_exp_minus_1)
qed

lemma bitlen_exists:
  fixes a :: "64 word"
  shows "\<exists>n\<le>64. unat a < 2 ^ n \<and> (n = 0 \<or> 2 ^ (n - 1) \<le> unat a)"
proof -
  define n where "n = (LEAST n. unat a < 2 ^ n)"
  have lt64: "unat a < 2 ^ 64" using unsigned_less [of a] by simp
  have lt: "unat a < 2 ^ n" unfolding n_def using lt64 by (rule LeastI)
  have "n \<le> 64" unfolding n_def using lt64 by (rule Least_le)
  moreover have "n = 0 \<or> 2 ^ (n - 1) \<le> unat a"
  proof (cases n)
    case 0
    then show ?thesis by simp
  next
    case (Suc m)
    have "\<not> unat a < 2 ^ m"
      using not_less_Least [of m "\<lambda>n. unat a < 2 ^ n"] Suc by (simp add: n_def)
    with Suc show ?thesis by simp
  qed
  ultimately show ?thesis using lt by blast
qed

subsection \<open>\<^verbatim>\<open>next_power_of_2\<close>\<close>

lemma next_power_of_2_small:
  assumes small: "unat a < 2 ^ 63"
  shows "\<exists>k. unat (next_power_of_2 a) = 2 ^ k \<and> unat a < 2 ^ k \<and>
           (\<forall>j. unat a < 2 ^ j \<longrightarrow> unat (next_power_of_2 a) \<le> 2 ^ j)"
proof -
  obtain n where n: "n \<le> 64" "unat a < 2 ^ n" "n = 0 \<or> 2 ^ (n - 1) \<le> unat a"
    using bitlen_exists [of a] by blast
  have np: "next_power_of_2 a = 2 ^ n"
    using n by (intro next_power_of_2_bitlen) auto
  have "n < 64"
  proof (rule ccontr)
    assume "\<not> n < 64"
    with n(1) have "n = 64" by simp
    with n(3) small show False by simp
  qed
  then have val: "unat (next_power_of_2 a) = 2 ^ n"
    by (simp only: np unat_two_power)
  have least: "unat (next_power_of_2 a) \<le> 2 ^ j" if "unat a < 2 ^ j" for j
  proof -
    have "n \<le> j"
    proof (rule ccontr)
      assume "\<not> n \<le> j"
      then have "j \<le> n - 1" "n \<noteq> 0" by simp_all
      then have "(2::nat) ^ j \<le> 2 ^ (n - 1)" by (intro power_increasing) simp_all
      moreover from n(3) \<open>n \<noteq> 0\<close> have "2 ^ (n - 1) \<le> unat a" by simp
      ultimately show False using that by linarith
    qed
    then show ?thesis unfolding val by (intro power_increasing) simp_all
  qed
  show ?thesis using val n(2) least by blast
qed

lemma next_power_of_2_large:
  assumes big: "2 ^ 63 \<le> unat a"
  shows "next_power_of_2 a = 0"
proof -
  obtain n where n: "n \<le> 64" "unat a < 2 ^ n" "n = 0 \<or> 2 ^ (n - 1) \<le> unat a"
    using bitlen_exists [of a] by blast
  have np: "next_power_of_2 a = 2 ^ n"
    using n by (intro next_power_of_2_bitlen) auto
  have "n = 64"
  proof (rule ccontr)
    assume "n \<noteq> 64"
    with n(1) have "n \<le> 63" by simp
    then have "(2::nat) ^ n \<le> 2 ^ 63" by (intro power_increasing) simp_all
    with n(2) big show False by simp
  qed
  then show ?thesis by (simp add: np)
qed

text \<open>
  Claim C5. For every 64-bit \<open>a\<close>, \<open>next_power_of_2 a\<close> is the smallest power of two
  strictly greater than \<open>a\<close> when that power fits in 64 bits (\<open>a < 2 ^ 63\<close>), and \<open>0\<close>
  when it does not (\<open>a \<ge> 2 ^ 63\<close>); \<open>next_power_of_2 5 = 8\<close> and
  \<open>next_power_of_2 8 = 16\<close>.
\<close>

theorem next_power_of_2_spec:
  "(unat a < 2 ^ 63 \<longrightarrow>
      (\<exists>k. unat (next_power_of_2 a) = 2 ^ k \<and> unat a < 2 ^ k \<and>
           (\<forall>j. unat a < 2 ^ j \<longrightarrow> unat (next_power_of_2 a) \<le> 2 ^ j))) \<and>
   (2 ^ 63 \<le> unat a \<longrightarrow> next_power_of_2 a = 0) \<and>
   next_power_of_2 5 = 8 \<and> next_power_of_2 8 = 16"
proof (intro conjI impI)
  show "next_power_of_2 5 = 8" by (simp add: next_power_of_2_def)
  show "next_power_of_2 8 = 16" by (simp add: next_power_of_2_def)
qed (fact next_power_of_2_small next_power_of_2_large)+

text \<open>Both cases of C5 at concrete inputs: \<open>5\<close> and \<open>2 ^ 63\<close>.\<close>

theorem next_power_of_2_spec_witness:
  "unat (5 :: uint64_t) < 2 ^ 63 \<and> unat (next_power_of_2 5) = 2 ^ 3 \<and>
   2 ^ 63 \<le> unat (0x8000000000000000 :: uint64_t) \<and>
   next_power_of_2 0x8000000000000000 = 0"
  using next_power_of_2_spec [of 5] next_power_of_2_spec [of "0x8000000000000000"]
  by (simp add: next_power_of_2_def)

subsection \<open>\<^verbatim>\<open>power_of_2_ceil\<close>\<close>

text \<open>
  Claim C4, as stated, promises the smallest power of two greater than or equal to \<open>a\<close>
  for every 64-bit \<open>a\<close> other than \<open>0\<close>. For \<open>a > 2 ^ 63\<close> no such power fits in 64
  bits, and the function returns \<open>0\<close>, which is below \<open>a\<close>.
\<close>

theorem power_of_2_ceil_counterexample:
  "power_of_2_ceil 0x8000000000000001 = 0 \<and>
   \<not> unat (0x8000000000000001 :: uint64_t) \<le> unat (power_of_2_ceil 0x8000000000000001)"
  by (simp add: power_of_2_ceil_def next_power_of_2_def)

lemma unat_pred:
  fixes a :: "64 word"
  assumes "a \<noteq> 0"
  shows "unat (a - 1) = unat a - 1"
  using assms by (simp add: unat_minus_one)

text \<open>
  Claim C4, amended. \<open>power_of_2_ceil 0 = 0\<close>; for \<open>a \<ge> 1\<close> the result is
  \<open>next_power_of_2 (a - 1)\<close>; for \<open>1 \<le> a \<le> 2 ^ 63\<close> it is the smallest power of two
  greater than or equal to \<open>a\<close>; for \<open>a > 2 ^ 63\<close> it is \<open>0\<close>. In particular
  \<open>power_of_2_ceil 1 = 1\<close>, \<open>power_of_2_ceil 5 = 8\<close> and \<open>power_of_2_ceil 8 = 8\<close>.
\<close>

theorem power_of_2_ceil_spec:
  "power_of_2_ceil 0 = 0 \<and>
   (a \<noteq> 0 \<longrightarrow> power_of_2_ceil a = next_power_of_2 (a - 1)) \<and>
   (1 \<le> unat a \<and> unat a \<le> 2 ^ 63 \<longrightarrow>
      (\<exists>k. unat (power_of_2_ceil a) = 2 ^ k \<and> unat a \<le> 2 ^ k \<and>
           (\<forall>j. unat a \<le> 2 ^ j \<longrightarrow> unat (power_of_2_ceil a) \<le> 2 ^ j))) \<and>
   (2 ^ 63 < unat a \<longrightarrow> power_of_2_ceil a = 0) \<and>
   power_of_2_ceil 1 = 1 \<and> power_of_2_ceil 5 = 8 \<and> power_of_2_ceil 8 = 8"
proof (intro conjI impI)
  show "power_of_2_ceil 0 = 0" by (simp add: power_of_2_ceil_def)
  show "power_of_2_ceil a = next_power_of_2 (a - 1)" if "a \<noteq> 0"
    using that by (simp add: power_of_2_ceil_def)
  show "power_of_2_ceil 1 = 1" by (simp add: power_of_2_ceil_def next_power_of_2_def)
  show "power_of_2_ceil 5 = 8" by (simp add: power_of_2_ceil_def next_power_of_2_def)
  show "power_of_2_ceil 8 = 8" by (simp add: power_of_2_ceil_def next_power_of_2_def)
next
  assume range: "1 \<le> unat a \<and> unat a \<le> 2 ^ 63"
  then have nz: "a \<noteq> 0" by (auto simp: unat_eq_0)
  have pred: "unat (a - 1) = unat a - 1" using nz by (rule unat_pred)
  have eq: "power_of_2_ceil a = next_power_of_2 (a - 1)"
    using nz by (simp add: power_of_2_ceil_def)
  have "unat (a - 1) < 2 ^ 63" using range pred by linarith
  then obtain k where k: "unat (next_power_of_2 (a - 1)) = 2 ^ k" "unat (a - 1) < 2 ^ k"
    "\<And>j. unat (a - 1) < 2 ^ j \<Longrightarrow> unat (next_power_of_2 (a - 1)) \<le> 2 ^ j"
    using next_power_of_2_small [of "a - 1"] by blast
  have "unat a \<le> 2 ^ k" using k(2) pred range by linarith
  moreover have "unat (power_of_2_ceil a) \<le> 2 ^ j" if "unat a \<le> 2 ^ j" for j
  proof -
    from that range pred have "unat (a - 1) < 2 ^ j" by linarith
    then show ?thesis unfolding eq by (rule k(3))
  qed
  ultimately show "\<exists>k. unat (power_of_2_ceil a) = 2 ^ k \<and> unat a \<le> 2 ^ k \<and>
           (\<forall>j. unat a \<le> 2 ^ j \<longrightarrow> unat (power_of_2_ceil a) \<le> 2 ^ j)"
    using k(1) unfolding eq by blast
next
  assume big: "2 ^ 63 < unat a"
  then have nz: "a \<noteq> 0" by (auto simp: unat_eq_0)
  have "unat (a - 1) = unat a - 1" using nz by (rule unat_pred)
  with big have "2 ^ 63 \<le> unat (a - 1)" by linarith
  then have "next_power_of_2 (a - 1) = 0" by (rule next_power_of_2_large)
  then show "power_of_2_ceil a = 0" using nz by (simp add: power_of_2_ceil_def)
qed

text \<open>The cases of the amended C4 at \<open>5\<close> and at \<open>2 ^ 63 + 1\<close>.\<close>

theorem power_of_2_ceil_spec_witness:
  "(5 :: uint64_t) \<noteq> 0 \<and> power_of_2_ceil 5 = next_power_of_2 (5 - 1) \<and>
   1 \<le> unat (5 :: uint64_t) \<and> unat (5 :: uint64_t) \<le> 2 ^ 63 \<and>
   unat (power_of_2_ceil 5) = 2 ^ 3 \<and>
   2 ^ 63 < unat (0x8000000000000001 :: uint64_t) \<and>
   power_of_2_ceil 0x8000000000000001 = 0"
  using power_of_2_ceil_spec [of 5] power_of_2_ceil_spec [of "0x8000000000000001"]
  by (simp add: power_of_2_ceil_def next_power_of_2_def)

subsection \<open>\<^verbatim>\<open>ceil_division\<close>\<close>

text \<open>
  The quotient \<^verbatim>\<open>(a + b - 1) / b\<close> is the ceiling of \<open>a / b\<close> as long as the sum
  \<^verbatim>\<open>a + b - 1\<close> fits in 64 bits; when the sum wraps, the quotient is \<open>0\<close>.
\<close>

lemma ceil_nat:
  assumes "0 < (b::nat)"
  shows "int ((a + b - 1) div b) = \<lceil>real a / real b\<rceil>"
proof -
  define z where "z = (a + b - 1) div b"
  have lo: "z * b \<le> a + b - 1" unfolding z_def by simp
  have hi: "a + b - 1 < z * b + b"
    unfolding z_def using assms dividend_less_div_times [of b "a + b - 1"] by (simp add: ac_simps)
  from hi assms have 1: "a \<le> z * b" by linarith
  have 2: "z * b < a + b" using lo assms by linarith
  have "real a \<le> real (z * b)" using 1 by (simp only: of_nat_le_iff)
  then have le: "real a / real b \<le> real z" using assms by (simp add: pos_divide_le_eq)
  have "real (z * b) < real (a + b)" using 2 by (simp only: of_nat_less_iff)
  then have "(real z - 1) * real b < real a" by (simp add: algebra_simps)
  then have gt: "real z - 1 < real a / real b" using assms by (simp add: pos_less_divide_eq)
  have "\<lceil>real a / real b\<rceil> = int z"
    by (rule ceiling_unique) (use le gt in simp_all)
  then show ?thesis by (simp add: z_def)
qed

lemma unat_sum_pred:
  fixes a b :: "64 word"
  assumes "b \<noteq> 0"
  shows "unat (a + b - 1) = (unat a + unat b - 1) mod 2 ^ 64"
proof -
  have pos: "1 \<le> unat a + unat b" using assms by (simp add: unat_gt_0 Suc_le_eq trans_less_add2)
  have "a + b - 1 = word_of_nat (unat a + unat b - 1)"
    using pos by (simp add: of_nat_diff)
  then have "unat (a + b - 1) = (unat a + unat b - 1) mod 2 ^ LENGTH(64)"
    by (simp only: unat_of_nat)
  then show ?thesis by simp
qed

lemma unat_ceil_division:
  assumes "b \<noteq> 0" and "unat a + unat b - 1 < 2 ^ 64"
  shows "ceil_division a b = Some ((a + b - 1) div b)"
    and "unat ((a + b - 1) div b) = (unat a + unat b - 1) div unat b"
proof -
  show "ceil_division a b = Some ((a + b - 1) div b)"
    using assms(1) by (simp add: ceil_division_def)
  have "unat (a + b - 1) = unat a + unat b - 1"
    using unat_sum_pred [OF assms(1), of a] assms(2) by simp
  then show "unat ((a + b - 1) div b) = (unat a + unat b - 1) div unat b"
    by (simp add: unat_div)
qed

lemma ceil_division_overflow:
  assumes "b \<noteq> 0" and "2 ^ 64 \<le> unat a + unat b - 1"
  shows "ceil_division a b = Some 0"
proof -
  have a: "unat a < 2 ^ 64" using unsigned_less [of a] by simp
  have b: "unat b < 2 ^ 64" using unsigned_less [of b] by simp
  have "unat a + unat b - 1 < 2 * 2 ^ 64" using a b by linarith
  then have "(unat a + unat b - 1) mod 2 ^ 64 = unat a + unat b - 1 - 2 ^ 64"
    using assms(2) by (simp add: mod_if)
  then have "unat (a + b - 1) = unat a + unat b - 1 - 2 ^ 64"
    using unat_sum_pred [OF assms(1), of a] by simp
  with a assms(2) have "unat (a + b - 1) < unat b" by linarith
  then have "unat ((a + b - 1) div b) = 0" by (simp add: unat_div)
  then have "(a + b - 1) div b = 0" by (simp only: unat_eq_0)
  then show ?thesis using assms(1) by (simp add: ceil_division_def)
qed

text \<open>
  Claim C6, as stated, equates \<open>ceil_division a b\<close> with the mathematical ceiling of
  \<open>a / b\<close> for every \<open>b > 0\<close>. At \<open>a = 2 ^ 64 - 1\<close> and \<open>b = 2\<close> the sum
  \<^verbatim>\<open>a + b - 1\<close> wraps to \<open>0\<close>: the function returns \<open>0\<close>, the ceiling is \<open>2 ^ 63\<close>.
\<close>

theorem ceil_division_counterexample:
  "ceil_division 0xFFFFFFFFFFFFFFFF 2 = Some 0 \<and>
   \<lceil>real (unat (0xFFFFFFFFFFFFFFFF :: uint64_t)) / real (unat (2 :: uint64_t))\<rceil>
     = 9223372036854775808"
proof
  show "ceil_division 0xFFFFFFFFFFFFFFFF 2 = Some 0" by (simp add: ceil_division_def)
  have "\<lceil>real (18446744073709551615::nat) / real (2::nat)\<rceil> = int ((18446744073709551615 + 2 - 1) div 2)"
    by (rule ceil_nat [symmetric]) simp
  then show "\<lceil>real (unat (0xFFFFFFFFFFFFFFFF :: uint64_t)) / real (unat (2 :: uint64_t))\<rceil>
     = 9223372036854775808" by simp
qed

text \<open>
  Claim C6, amended. For every \<open>b > 0\<close>, \<open>ceil_division a b\<close> is \<^verbatim>\<open>(a + b - 1) / b\<close>
  in 64-bit arithmetic; when \<open>a + b - 1 < 2 ^ 64\<close> (the sum does not wrap) this is
  the mathematical ceiling of \<open>a / b\<close>. In particular \<open>ceil_division 7 2 = 4\<close> and
  \<open>ceil_division 8 2 = 4\<close>.
\<close>

theorem ceil_division_spec:
  "(b \<noteq> 0 \<longrightarrow> ceil_division a b = Some ((a + b - 1) div b)) \<and>
   (b \<noteq> 0 \<and> unat a + unat b - 1 < 2 ^ 64 \<longrightarrow>
      (\<exists>q. ceil_division a b = Some q \<and>
           int (unat q) = \<lceil>real (unat a) / real (unat b)\<rceil>)) \<and>
   ceil_division 7 2 = Some 4 \<and> ceil_division 8 2 = Some 4"
proof (intro conjI impI)
  show "ceil_division a b = Some ((a + b - 1) div b)" if "b \<noteq> 0"
    using that by (simp add: ceil_division_def)
  show "ceil_division 7 2 = Some 4" by (simp add: ceil_division_def)
  show "ceil_division 8 2 = Some 4" by (simp add: ceil_division_def)
next
  assume h: "b \<noteq> 0 \<and> unat a + unat b - 1 < 2 ^ 64"
  then have pos: "0 < unat b" by (simp add: unat_gt_0)
  from h have c: "ceil_division a b = Some ((a + b - 1) div b)"
    and u: "unat ((a + b - 1) div b) = (unat a + unat b - 1) div unat b"
    by (simp_all add: unat_ceil_division)
  show "\<exists>q. ceil_division a b = Some q \<and> int (unat q) = \<lceil>real (unat a) / real (unat b)\<rceil>"
  proof (intro exI conjI)
    show "ceil_division a b = Some ((a + b - 1) div b)" by (fact c)
    show "int (unat ((a + b - 1) div b)) = \<lceil>real (unat a) / real (unat b)\<rceil>"
      unfolding u using pos by (rule ceil_nat)
  qed
qed

text \<open>The amended C6 at \<open>a = 7\<close>, \<open>b = 2\<close>.\<close>

theorem ceil_division_spec_witness:
  "(2 :: uint64_t) \<noteq> 0 \<and> unat (7 :: uint64_t) + unat (2 :: uint64_t) - 1 < 2 ^ 64 \<and>
   ceil_division 7 2 = Some ((7 + 2 - 1) div 2) \<and>
   (\<exists>q. ceil_division 7 2 = Some q \<and>
        int (unat q) = \<lceil>real (unat (7 :: uint64_t)) / real (unat (2 :: uint64_t))\<rceil>)"
  using ceil_division_spec [of 2 7] by simp

subsection \<open>\<^verbatim>\<open>next_multiple_of\<close>\<close>

lemma ceil_nat_bounds:
  fixes a b :: nat
  assumes "0 < b"
  shows "a \<le> (a + b - 1) div b * b" and "(a + b - 1) div b * b < a + b"
proof -
  define z where "z = (a + b - 1) div b"
  have lo: "z * b \<le> a + b - 1" unfolding z_def by simp
  have hi: "a + b - 1 < z * b + b"
    unfolding z_def using assms(1) dividend_less_div_times [of b "a + b - 1"]
    by (simp add: ac_simps)
  from hi assms(1) show "a \<le> (a + b - 1) div b * b" unfolding z_def by linarith
  from lo assms(1) show "(a + b - 1) div b * b < a + b" unfolding z_def by linarith
qed

text \<open>
  Claim C7, as stated, promises the smallest multiple of \<open>b\<close> that is at least \<open>a\<close> for
  every \<open>b > 0\<close>. At \<open>a = 2 ^ 64 - 1\<close> and \<open>b = 3\<close> that multiple is \<open>a\<close> itself,
  but \<^verbatim>\<open>a + b - 1\<close> wraps and the function returns \<open>0\<close>.
\<close>

theorem next_multiple_of_counterexample:
  "next_multiple_of 0xFFFFFFFFFFFFFFFF 3 = Some 0 \<and>
   unat (3 :: uint64_t) dvd unat (0xFFFFFFFFFFFFFFFF :: uint64_t) \<and>
   \<not> unat (0xFFFFFFFFFFFFFFFF :: uint64_t) \<le> unat (0 :: uint64_t)"
  by (simp add: next_multiple_of_def ceil_division_def)

text \<open>
  Claim C7, amended. \<open>next_multiple_of a b\<close> is \<open>ceil_division a b * b\<close>; for every
  \<open>b > 0\<close> with \<open>a + b - 1 < 2 ^ 64\<close> it is the smallest multiple of \<open>b\<close> that is
  greater than or equal to \<open>a\<close>. In particular \<open>next_multiple_of 7 4 = 8\<close> and
  \<open>next_multiple_of 8 4 = 8\<close>.
\<close>

theorem next_multiple_of_spec:
  "next_multiple_of a b = map_option (\<lambda>c. c * b) (ceil_division a b) \<and>
   (b \<noteq> 0 \<and> unat a + unat b - 1 < 2 ^ 64 \<longrightarrow>
      (\<exists>m. next_multiple_of a b = Some m \<and> unat b dvd unat m \<and> unat a \<le> unat m \<and>
           (\<forall>k. unat b dvd k \<and> unat a \<le> k \<longrightarrow> unat m \<le> k))) \<and>
   next_multiple_of 7 4 = Some 8 \<and> next_multiple_of 8 4 = Some 8"
proof (intro conjI impI)
  show "next_multiple_of a b = map_option (\<lambda>c. c * b) (ceil_division a b)"
    by (cases "ceil_division a b") (simp_all add: next_multiple_of_def)
  show "next_multiple_of 7 4 = Some 8" by (simp add: next_multiple_of_def ceil_division_def)
  show "next_multiple_of 8 4 = Some 8" by (simp add: next_multiple_of_def ceil_division_def)
next
  assume h: "b \<noteq> 0 \<and> unat a + unat b - 1 < 2 ^ 64"
  define A B z where "A = unat a" and "B = unat b" and "z = (A + B - 1) div B"
  have pos: "0 < B" using h by (simp add: B_def unat_gt_0)
  from h have c: "ceil_division a b = Some ((a + b - 1) div b)"
    and u: "unat ((a + b - 1) div b) = z"
    by (simp_all add: unat_ceil_division z_def A_def B_def)
  have ge: "A \<le> z * B" and lt: "z * B < A + B"
    unfolding z_def using pos by (rule ceil_nat_bounds)+
  have fits: "z * B < 2 ^ 64" using lt h pos unfolding A_def B_def by linarith
  have m: "unat ((a + b - 1) div b * b) = z * B"
  proof -
    have "unat ((a + b - 1) div b * b) = unat ((a + b - 1) div b) * unat b mod 2 ^ LENGTH(64)"
      by (rule unat_word_ariths)
    then have "unat ((a + b - 1) div b * b) = (z * B) mod 2 ^ LENGTH(64)"
      by (simp only: u B_def)
    then show ?thesis using fits by simp
  qed
  have least: "z * B \<le> k" if "B dvd k" "A \<le> k" for k
  proof -
    from that(1) obtain c where k: "k = c * B" by (metis dvd_def mult.commute)
    have "z * B < (c + 1) * B" using lt that(2) k by simp
    then have "0 < B \<and> z < c + 1" by (simp only: mult_less_cancel2)
    then have "z \<le> c" by simp
    then show ?thesis unfolding k by simp
  qed
  show "\<exists>m. next_multiple_of a b = Some m \<and> unat b dvd unat m \<and> unat a \<le> unat m \<and>
           (\<forall>k. unat b dvd k \<and> unat a \<le> k \<longrightarrow> unat m \<le> k)"
  proof (intro exI conjI allI impI)
    show "next_multiple_of a b = Some ((a + b - 1) div b * b)"
      by (simp add: next_multiple_of_def c)
    show "unat b dvd unat ((a + b - 1) div b * b)" unfolding m by (simp add: B_def)
    show "unat a \<le> unat ((a + b - 1) div b * b)" unfolding m using ge by (simp add: A_def)
    show "unat ((a + b - 1) div b * b) \<le> k" if "unat b dvd k \<and> unat a \<le> k" for k
      unfolding m using that least [of k] by (simp add: A_def B_def)
  qed
qed

text \<open>The amended C7 at \<open>a = 7\<close>, \<open>b = 4\<close>.\<close>

theorem next_multiple_of_spec_witness:
  "(4 :: uint64_t) \<noteq> 0 \<and> unat (7 :: uint64_t) + unat (4 :: uint64_t) - 1 < 2 ^ 64 \<and>
   (\<exists>m. next_multiple_of 7 4 = Some m \<and> unat (4 :: uint64_t) dvd unat m \<and>
        unat (7 :: uint64_t) \<le> unat m)"
proof -
  have h: "(4 :: uint64_t) \<noteq> 0 \<and> unat (7 :: uint64_t) + unat (4 :: uint64_t) - 1 < 2 ^ 64"
    by simp
  with next_multiple_of_spec [of 7 4] show ?thesis by blast
qed

section \<open>Properties of \<^verbatim>\<open>static_array\<close>\<close>

subsection \<open>The loops of the constructor and of \<^verbatim>\<open>size()\<close>\<close>

text \<open>
  Started at \<open>i\<close>, the constructor's loop keeps the cells below \<open>i\<close> and writes
  \<open>dim0\<close> to the others; the loop of \<open>size()\<close> multiplies \<open>s\<close> by the cells from \<open>i\<close> on.
\<close>

lemma broadcast_loop_eq:
  "i \<le> Dim \<Longrightarrow> length d = Dim \<Longrightarrow>
   broadcast_loop Dim dim0 i d = take i d @ replicate (Dim - i) dim0"
proof (induction Dim dim0 i d rule: broadcast_loop.induct)
  case (1 Dim dim0 i d)
  show ?case
  proof (cases "i < Dim")
    case True
    then have "broadcast_loop Dim dim0 i d = broadcast_loop Dim dim0 (Suc i) (d[i := dim0])"
      by (simp add: broadcast_loop.simps [of Dim dim0 i d])
    also have "\<dots> = take (Suc i) (d[i := dim0]) @ replicate (Dim - Suc i) dim0"
      using True "1.prems" by (intro "1.IH") simp_all
    also have "take (Suc i) (d[i := dim0]) = take i d @ [dim0]"
      using True "1.prems" by (simp add: take_Suc_conv_app_nth)
    also have "(take i d @ [dim0]) @ replicate (Dim - Suc i) dim0
                 = take i d @ replicate (Dim - i) dim0"
      using True by (simp add: Suc_diff_Suc flip: replicate_Suc)
    finally show ?thesis .
  next
    case False
    then have "broadcast_loop Dim dim0 i d = d"
      by (subst broadcast_loop.simps) simp
    with False "1.prems" show ?thesis by simp
  qed
qed

lemma static_array_1_data: "data (static_array_1 Dim junk dim0) = replicate Dim dim0"
  by (simp add: static_array_1_def static_array_default_def broadcast_loop_eq)

lemma size_loop_eq:
  "i \<le> Dim \<Longrightarrow> length d = Dim \<Longrightarrow> size_loop Dim i d s = s * prod_list (drop i d)"
proof (induction Dim i d s rule: size_loop.induct)
  case (1 Dim i d s)
  show ?case
  proof (cases "i < Dim")
    case True
    then have "size_loop Dim i d s = size_loop Dim (Suc i) d (s * d ! i)"
      by (simp add: size_loop.simps [of Dim i d s])
    also have "\<dots> = s * d ! i * prod_list (drop (Suc i) d)"
      using True "1.prems" by (intro "1.IH") simp_all
    also have "\<dots> = s * prod_list (drop i d)"
      using True "1.prems" by (simp add: Cons_nth_drop_Suc [symmetric] mult.assoc)
    finally show ?thesis .
  next
    case False
    then have "size_loop Dim i d s = s"
      by (subst size_loop.simps) simp
    with False "1.prems" show ?thesis by simp
  qed
qed

lemma size_sa_prod: "has_dim Dim a \<Longrightarrow> size_sa Dim a = prod_list (data a)"
  by (simp add: size_sa_def has_dim_def size_loop_eq)

lemma subscript_nth:
  "has_dim Dim a \<Longrightarrow> i < Dim \<Longrightarrow> subscript a (int i) = Some (data a ! i)"
  by (simp add: subscript_def has_dim_def)

text \<open>
  Claim C9, as stated, equates \<open>size()\<close> of the array built from \<open>s\<close> with \<open>s\<close> raised to
  the power \<open>Dim\<close>, for every \<open>s\<close> and \<open>Dim\<close>. The loop of \<open>size()\<close> multiplies in
  \<^verbatim>\<open>std::size_t\<close>, which wraps: at \<open>s = 2 ^ 32\<close> and \<open>Dim = 3\<close> every component is
  \<open>2 ^ 32\<close> and \<open>size()\<close> returns \<open>0\<close>, while \<open>s ^ Dim\<close> is \<open>2 ^ 96\<close>.
\<close>

theorem static_array_1_size_counterexample:
  "size_sa 3 (static_array_1 3 (of_nat :: nat \<Rightarrow> size_t) 0x100000000) = 0 \<and>
   unat (0x100000000 :: size_t) ^ 3 = 79228162514264337593543950336 \<and>
   unat (size_sa 3 (static_array_1 3 (of_nat :: nat \<Rightarrow> size_t) 0x100000000))
     \<noteq> unat (0x100000000 :: size_t) ^ 3"
proof -
  have d: "has_dim 3 (static_array_1 3 (of_nat :: nat \<Rightarrow> size_t) 0x100000000)"
    by (simp add: has_dim_def static_array_1_data)
  have z: "size_sa 3 (static_array_1 3 (of_nat :: nat \<Rightarrow> size_t) 0x100000000) = 0"
    by (simp add: size_sa_prod [OF d] static_array_1_data)
  have p: "unat (0x100000000 :: size_t) ^ 3 = 79228162514264337593543950336"
    by simp
  from z p show ?thesis by simp
qed

text \<open>
  Claim C9, amended. For every scalar \<open>s\<close> and every dimension \<open>Dim\<close>, the one-argument
  constructor sets each of the \<open>Dim\<close> components to \<open>s\<close>, and \<open>size()\<close> of the result is
  \<open>s\<close> raised to the power \<open>Dim\<close> in \<^verbatim>\<open>std::size_t\<close> arithmetic: as a number it is
  \<open>s ^ Dim\<close> modulo \<open>2 ^ 64\<close>, and it is \<open>s ^ Dim\<close> itself whenever \<open>s ^ Dim < 2 ^ 64\<close>.
\<close>

theorem static_array_1_spec:
  "has_dim Dim (static_array_1 Dim junk s) \<and>
   (\<forall>i<Dim. subscript (static_array_1 Dim junk s) (int i) = Some s) \<and>
   size_sa Dim (static_array_1 Dim junk s) = s ^ Dim \<and>
   unat (size_sa Dim (static_array_1 Dim junk s)) = unat s ^ Dim mod 2 ^ 64 \<and>
   (unat s ^ Dim < 2 ^ 64 \<longrightarrow> unat (size_sa Dim (static_array_1 Dim junk s)) = unat s ^ Dim)"
proof -
  have d: "has_dim Dim (static_array_1 Dim junk s)"
    by (simp add: has_dim_def static_array_1_data)
  have c: "subscript (static_array_1 Dim junk s) (int i) = Some s" if "i < Dim" for i
    using that by (simp add: subscript_nth [OF d] static_array_1_data)
  have sz: "size_sa Dim (static_array_1 Dim junk s) = s ^ Dim"
    by (simp add: size_sa_prod [OF d] static_array_1_data prod_list_replicate)
  have "s ^ Dim = word_of_nat (unat s ^ Dim)" by simp
  then have "unat (s ^ Dim) = unat s ^ Dim mod 2 ^ LENGTH(64)"
    by (simp only: unat_of_nat)
  then have m: "unat (size_sa Dim (static_array_1 Dim junk s)) = unat s ^ Dim mod 2 ^ 64"
    by (simp add: sz)
  then have "unat (size_sa Dim (static_array_1 Dim junk s)) = unat s ^ Dim"
    if "unat s ^ Dim < 2 ^ 64"
    using that by simp
  with d c sz m show ?thesis by blast
qed

text \<open>The amended C9 at \<open>Dim = 3\<close>, \<open>s = 5\<close>: component \<open>1\<close> is \<open>5\<close> and the size is \<open>125\<close>.\<close>

theorem static_array_1_spec_witness:
  "(1 :: nat) < 3 \<and> subscript (static_array_1 3 (\<lambda>_. 7) 5) (int 1) = Some 5 \<and>
   size_sa 3 (static_array_1 3 (\<lambda>_. 7) 5) = 125 \<and>
   unat (5 :: size_t) ^ 3 < (2 :: nat) ^ 64 \<and>
   unat (size_sa 3 (static_array_1 3 (\<lambda>_. 7) 5)) = unat (5 :: size_t) ^ 3"
  using static_array_1_spec [of 3 "\<lambda>_. 7" 5]
    static_array_1_spec [of 3 "\<lambda>_. 7" 5, THEN conjunct2, THEN conjunct1, rule_format, of 1]
  by simp

subsection \<open>The loops of the two operator macros\<close>

text \<open>
  Both loops stop with no result at the first cell whose scalar operation is undefined;
  otherwise cell \<open>k\<close> of the result is the scalar operation on the cells \<open>k\<close> of the
  two arguments. In the in-place loop the cells from \<open>i\<close> on still hold their values
  from before the loop, also when the argument is the object itself.
\<close>

lemma map_upt_Suc_front:
  "i < n \<Longrightarrow> map f [i..<n] = f i # map f [Suc i..<n]"
  by (simp add: upt_conv_Cons)

lemma ooplace_loop_eq:
  "i \<le> Dim \<Longrightarrow> length r = Dim \<Longrightarrow>
   ooplace_loop op Dim i r a b =
     (if \<exists>k. i \<le> k \<and> k < Dim \<and> scalar_op op (a ! k) (b ! k) = None then None
      else Some (take i r @ map (\<lambda>k. the (scalar_op op (a ! k) (b ! k))) [i..<Dim]))"
proof (induction op Dim i r a b rule: ooplace_loop.induct)
  case (1 op Dim i r a b)
  show ?case
  proof (cases "i < Dim")
    case False
    then have "ooplace_loop op Dim i r a b = Some r"
      by (subst ooplace_loop.simps) simp
    with False "1.prems" show ?thesis by simp
  next
    case True
    show ?thesis
    proof (cases "scalar_op op (a ! i) (b ! i)")
      case None
      with True have "ooplace_loop op Dim i r a b = None"
        by (subst ooplace_loop.simps) simp
      moreover have "\<exists>k. i \<le> k \<and> k < Dim \<and> scalar_op op (a ! k) (b ! k) = None"
        using True None by blast
      ultimately show ?thesis by simp
    next
      case (Some v)
      with True have "ooplace_loop op Dim i r a b = ooplace_loop op Dim (Suc i) (r[i := v]) a b"
        by (subst ooplace_loop.simps) simp
      also have "\<dots> =
        (if \<exists>k. Suc i \<le> k \<and> k < Dim \<and> scalar_op op (a ! k) (b ! k) = None then None
         else Some (take (Suc i) (r[i := v]) @
                    map (\<lambda>k. the (scalar_op op (a ! k) (b ! k))) [Suc i..<Dim]))"
        using True Some "1.prems" by (intro "1.IH") simp_all
      also have "(\<exists>k. Suc i \<le> k \<and> k < Dim \<and> scalar_op op (a ! k) (b ! k) = None)
               \<longleftrightarrow> (\<exists>k. i \<le> k \<and> k < Dim \<and> scalar_op op (a ! k) (b ! k) = None)"
        using Some by (metis Suc_leD Suc_leI le_neq_implies_less option.distinct(1))
      also have "take (Suc i) (r[i := v]) @
                   map (\<lambda>k. the (scalar_op op (a ! k) (b ! k))) [Suc i..<Dim]
               = take i r @ map (\<lambda>k. the (scalar_op op (a ! k) (b ! k))) [i..<Dim]"
        using True Some "1.prems"
        by (simp add: take_Suc_conv_app_nth map_upt_Suc_front [of i Dim])
      finally show ?thesis .
    qed
  qed
qed

lemma operand_data_update:
  "i < k \<Longrightarrow> operand_data b (d[i := v]) ! k = operand_data b d ! k"
  by (cases b) simp_all

lemma inplace_loop_eq:
  "i \<le> Dim \<Longrightarrow> length d = Dim \<Longrightarrow>
   inplace_loop op Dim i d b =
     (if \<exists>k. i \<le> k \<and> k < Dim \<and> scalar_op op (d ! k) (operand_data b d ! k) = None then None
      else Some (take i d @ map (\<lambda>k. the (scalar_op op (d ! k) (operand_data b d ! k))) [i..<Dim]))"
proof (induction op Dim i d b rule: inplace_loop.induct)
  case (1 op Dim i d b)
  let ?f = "\<lambda>d k. scalar_op op (d ! k) (operand_data b d ! k)"
  show ?case
  proof (cases "i < Dim")
    case False
    then have "inplace_loop op Dim i d b = Some d"
      by (subst inplace_loop.simps) simp
    with False "1.prems" show ?thesis by simp
  next
    case True
    show ?thesis
    proof (cases "?f d i")
      case None
      with True have "inplace_loop op Dim i d b = None"
        by (subst inplace_loop.simps) simp
      moreover have "\<exists>k. i \<le> k \<and> k < Dim \<and> ?f d k = None"
        using True None by blast
      ultimately show ?thesis by simp
    next
      case (Some v)
      have later: "?f (d[i := v]) k = ?f d k" if "Suc i \<le> k" for k
        using that by (simp add: operand_data_update)
      from True Some
      have "inplace_loop op Dim i d b = inplace_loop op Dim (Suc i) (d[i := v]) b"
        by (subst inplace_loop.simps) simp
      also have "\<dots> =
        (if \<exists>k. Suc i \<le> k \<and> k < Dim \<and> ?f (d[i := v]) k = None then None
         else Some (take (Suc i) (d[i := v]) @
                    map (\<lambda>k. the (?f (d[i := v]) k)) [Suc i..<Dim]))"
        using True Some "1.prems" by (intro "1.IH") simp_all
      also have "(\<exists>k. Suc i \<le> k \<and> k < Dim \<and> ?f (d[i := v]) k = None)
               \<longleftrightarrow> (\<exists>k. Suc i \<le> k \<and> k < Dim \<and> ?f d k = None)"
        using later by auto
      also have "\<dots> \<longleftrightarrow> (\<exists>k. i \<le> k \<and> k < Dim \<and> ?f d k = None)"
        using Some by (metis Suc_leD Suc_leI le_neq_implies_less option.distinct(1))
      also have "map (\<lambda>k. the (?f (d[i := v]) k)) [Suc i..<Dim]
               = map (\<lambda>k. the (?f d k)) [Suc i..<Dim]"
        using later by (intro map_cong) simp_all
      also have "take (Suc i) (d[i := v]) @ map (\<lambda>k. the (?f d k)) [Suc i..<Dim]
               = take i d @ map (\<lambda>k. the (?f d k)) [i..<Dim]"
        using True Some "1.prems"
        by (simp add: take_Suc_conv_app_nth map_upt_Suc_front [of i Dim])
      finally show ?thesis .
    qed
  qed
qed

text \<open>The two operator families in closed form.\<close>

lemma ooplace_op_eq:
  "ooplace_op op Dim junk a b =
     (if \<exists>k<Dim. scalar_op op (data a ! k) (data b ! k) = None then None
      else Some \<lparr>data = map (\<lambda>k. the (scalar_op op (data a ! k) (data b ! k))) [0..<Dim]\<rparr>)"
  by (simp add: ooplace_op_def static_array_default_def ooplace_loop_eq)

lemma inplace_op_eq:
  "has_dim Dim a \<Longrightarrow>
   inplace_op op Dim a b =
     (if \<exists>k<Dim. scalar_op op (data a ! k) (operand_data b (data a) ! k) = None then None
      else Some \<lparr>data = map (\<lambda>k. the (scalar_op op (data a ! k) (operand_data b (data a) ! k)))
                           [0..<Dim]\<rparr>)"
  by (simp add: inplace_op_def has_dim_def inplace_loop_eq)

lemma scalar_op_defined:
  "(op = OpDiv \<or> op = OpMod \<longrightarrow> y \<noteq> 0) \<Longrightarrow> \<exists>v. scalar_op op x y = Some v"
  by (cases op) simp_all

lemma ooplace_op_total:
  assumes "\<forall>i<Dim. \<exists>v. scalar_op op (data a ! i) (data b ! i) = Some v"
  shows "\<exists>r. ooplace_op op Dim junk a b = Some r \<and> has_dim Dim r \<and>
             (\<forall>i<Dim. scalar_op op (data a ! i) (data b ! i) = Some (data r ! i))"
proof -
  let ?r = "\<lparr>data = map (\<lambda>k. the (scalar_op op (data a ! k) (data b ! k))) [0..<Dim]\<rparr>"
  have "\<not> (\<exists>k<Dim. scalar_op op (data a ! k) (data b ! k) = None)"
    using assms by auto
  then have "ooplace_op op Dim junk a b = Some ?r"
    by (simp only: ooplace_op_eq if_False)
  moreover have "has_dim Dim ?r" by (simp add: has_dim_def)
  moreover have "scalar_op op (data a ! i) (data b ! i) = Some (data ?r ! i)" if "i < Dim" for i
    using assms that by auto
  ultimately show ?thesis by blast
qed

subsection \<open>Compound assignment against the binary operators\<close>

text \<open>
  Claim C10. For every dimension \<open>Dim\<close>, every operator \<open>op\<close> among \<open>+ - * / %\<close> and all
  arrays \<open>a\<close>, \<open>b\<close> of that dimension, \<^verbatim>\<open>a op= b\<close> leaves in \<open>a\<close> what \<^verbatim>\<open>a op b\<close>
  returns for the values before the assignment, also when \<open>b\<close> is \<open>a\<close> itself; and
  when every component of \<open>b\<close> is non-zero for \<open>/\<close> and \<open>%\<close>, both have a result, whose
  component \<open>i\<close> is the scalar operation on the components \<open>i\<close> of \<open>a\<close> and \<open>b\<close>.
\<close>

theorem inplace_op_agrees:
  assumes "has_dim Dim a" and "has_dim Dim b"
  shows "inplace_op op Dim a (Other b) = ooplace_op op Dim junk a b \<and>
         inplace_op op Dim a This = ooplace_op op Dim junk a a \<and>
         ((op = OpDiv \<or> op = OpMod \<longrightarrow> (\<forall>i<Dim. data b ! i \<noteq> 0)) \<longrightarrow>
            (\<exists>r. inplace_op op Dim a (Other b) = Some r \<and>
                 ooplace_op op Dim junk a b = Some r \<and> has_dim Dim r \<and>
                 (\<forall>i<Dim. scalar_op op (data a ! i) (data b ! i) = Some (data r ! i))))"
proof (intro conjI impI)
  show other: "inplace_op op Dim a (Other b) = ooplace_op op Dim junk a b"
    by (simp add: inplace_op_eq [OF assms(1)] ooplace_op_eq)
  show "inplace_op op Dim a This = ooplace_op op Dim junk a a"
    by (simp add: inplace_op_eq [OF assms(1)] ooplace_op_eq)
  assume nz: "op = OpDiv \<or> op = OpMod \<longrightarrow> (\<forall>i<Dim. data b ! i \<noteq> 0)"
  have "\<forall>i<Dim. \<exists>v. scalar_op op (data a ! i) (data b ! i) = Some v"
    using nz by (auto intro!: scalar_op_defined)
  from ooplace_op_total [OF this, of junk] other
  show "\<exists>r. inplace_op op Dim a (Other b) = Some r \<and>
            ooplace_op op Dim junk a b = Some r \<and> has_dim Dim r \<and>
            (\<forall>i<Dim. scalar_op op (data a ! i) (data b ! i) = Some (data r ! i))"
    by auto
qed

text \<open>
  C10 at \<open>a = (7, 9)\<close>, \<open>b = (2, 4)\<close> with \<open>/\<close>, and at \<^verbatim>\<open>a += a\<close>.
\<close>

theorem inplace_op_agrees_witness:
  "has_dim 2 \<lparr>data = [7, 9]\<rparr> \<and> has_dim 2 \<lparr>data = [2, 4]\<rparr> \<and>
   data \<lparr>data = [2, 4 :: size_t]\<rparr> ! 0 \<noteq> 0 \<and> data \<lparr>data = [2, 4 :: size_t]\<rparr> ! 1 \<noteq> 0 \<and>
   ooplace_op OpDiv 2 (\<lambda>_. 0) \<lparr>data = [7, 9]\<rparr> \<lparr>data = [2, 4]\<rparr> = Some \<lparr>data = [3, 2]\<rparr> \<and>
   inplace_op OpDiv 2 \<lparr>data = [7, 9]\<rparr> (Other \<lparr>data = [2, 4]\<rparr>) = Some \<lparr>data = [3, 2]\<rparr> \<and>
   ooplace_op OpAdd 2 (\<lambda>_. 0) \<lparr>data = [7, 9]\<rparr> \<lparr>data = [7, 9]\<rparr> = Some \<lparr>data = [14, 18]\<rparr> \<and>
   inplace_op OpAdd 2 \<lparr>data = [7, 9]\<rparr> This = Some \<lparr>data = [14, 18]\<rparr>"
proof -
  let ?a = "\<lparr>data = [7, 9 :: size_t]\<rparr>" and ?b = "\<lparr>data = [2, 4 :: size_t]\<rparr>"
  have a: "has_dim 2 ?a" and b: "has_dim 2 ?b" by (simp_all add: has_dim_def)
  have nz: "data ?b ! 0 \<noteq> 0" "data ?b ! 1 \<noteq> 0" by simp_all
  have o1: "ooplace_op OpDiv 2 (\<lambda>_. 0) ?a ?b = Some \<lparr>data = [3, 2]\<rparr>" by code_simp
  have o2: "ooplace_op OpAdd 2 (\<lambda>_. 0) ?a ?a = Some \<lparr>data = [14, 18]\<rparr>" by code_simp
  have i1: "inplace_op OpDiv 2 ?a (Other ?b) = Some \<lparr>data = [3, 2]\<rparr>"
    using inplace_op_agrees [OF a b, of OpDiv "\<lambda>_. 0"] o1 by simp
  have i2: "inplace_op OpAdd 2 ?a This = Some \<lparr>data = [14, 18]\<rparr>"
    using inplace_op_agrees [OF a b, of OpAdd "\<lambda>_. 0"] o2 by simp
  from a b nz o1 o2 i1 i2 show ?thesis by blast
qed

subsection \<open>Addition, subtraction and equality\<close>

lemma ooplace_add_data:
  "ooplace_op OpAdd Dim junk a b =
     Some \<lparr>data = map (\<lambda>k. data a ! k + data b ! k) [0..<Dim]\<rparr>"
  by (simp add: ooplace_op_eq)

lemma ooplace_sub_data:
  "ooplace_op OpSub Dim junk a b =
     Some \<lparr>data = map (\<lambda>k. data a ! k - data b ! k) [0..<Dim]\<rparr>"
  by (simp add: ooplace_op_eq)

lemma neq_iff_component:
  assumes "has_dim Dim a" and "has_dim Dim b"
  shows "operator_neq a b \<longleftrightarrow> (\<exists>i<Dim. subscript a (int i) \<noteq> subscript b (int i))"
proof -
  have "operator_neq a b \<longleftrightarrow> (\<exists>i<Dim. data a ! i \<noteq> data b ! i)"
    using assms by (auto simp: operator_neq_def operator_eq_def has_dim_def list_eq_iff_nth_eq)
  also have "\<dots> \<longleftrightarrow> (\<exists>i<Dim. subscript a (int i) \<noteq> subscript b (int i))"
    using assms by (auto simp: subscript_nth)
  finally show ?thesis .
qed

text \<open>
  Claim C8. For all arrays \<open>a\<close>, \<open>b\<close> of one dimension: \<^verbatim>\<open>a + b == b + a\<close>,
  \<^verbatim>\<open>(a + b) - b == a\<close>, \<^verbatim>\<open>a == a\<close>, and \<^verbatim>\<open>a != b\<close> holds exactly when some component
  of \<open>a\<close> differs from the same component of \<open>b\<close>. (The dimensions 1, 2 and 3 of the
  claim are instances.)
\<close>

theorem static_array_algebra:
  assumes "has_dim Dim a" and "has_dim Dim b"
  shows "(\<exists>x y. ooplace_op OpAdd Dim junk a b = Some x \<and>
               ooplace_op OpAdd Dim junk' b a = Some y \<and> operator_eq x y) \<and>
         (\<exists>x y. ooplace_op OpAdd Dim junk a b = Some x \<and>
               ooplace_op OpSub Dim junk' x b = Some y \<and> operator_eq y a) \<and>
         operator_eq a a \<and>
         (operator_neq a b \<longleftrightarrow> (\<exists>i<Dim. subscript a (int i) \<noteq> subscript b (int i)))"
proof (intro conjI)
  show "\<exists>x y. ooplace_op OpAdd Dim junk a b = Some x \<and>
              ooplace_op OpAdd Dim junk' b a = Some y \<and> operator_eq x y"
    by (simp add: ooplace_add_data operator_eq_def add.commute)
  have "map (\<lambda>k. map (\<lambda>k. data a ! k + data b ! k) [0..<Dim] ! k - data b ! k) [0..<Dim]
          = map (\<lambda>k. data a ! k) [0..<Dim]"
    by (intro map_cong) simp_all
  also have "\<dots> = data a"
    using assms(1) map_nth [of "data a"] by (simp add: has_dim_def)
  finally show "\<exists>x y. ooplace_op OpAdd Dim junk a b = Some x \<and>
              ooplace_op OpSub Dim junk' x b = Some y \<and> operator_eq y a"
    by (simp add: ooplace_add_data ooplace_sub_data operator_eq_def)
  show "operator_eq a a" by (simp add: operator_eq_def)
  show "operator_neq a b \<longleftrightarrow> (\<exists>i<Dim. subscript a (int i) \<noteq> subscript b (int i))"
    using assms by (rule neq_iff_component)
qed

text \<open>
  C8 at \<open>a = (2 ^ 64 - 1, 2)\<close> and \<open>b = (1, 2)\<close>: the first sum wraps to \<open>0\<close>, and
  subtracting \<open>b\<close> gives \<open>a\<close> back.
\<close>

theorem static_array_algebra_witness:
  "has_dim 2 \<lparr>data = [0xFFFFFFFFFFFFFFFF, 2]\<rparr> \<and> has_dim 2 \<lparr>data = [1, 2]\<rparr> \<and>
   ooplace_op OpAdd 2 (\<lambda>_. 9) \<lparr>data = [0xFFFFFFFFFFFFFFFF, 2]\<rparr> \<lparr>data = [1, 2]\<rparr>
     = Some \<lparr>data = [0, 4]\<rparr> \<and>
   ooplace_op OpAdd 2 (\<lambda>_. 8) \<lparr>data = [1, 2]\<rparr> \<lparr>data = [0xFFFFFFFFFFFFFFFF, 2]\<rparr>
     = Some \<lparr>data = [0, 4]\<rparr> \<and>
   ooplace_op OpSub 2 (\<lambda>_. 8) \<lparr>data = [0, 4]\<rparr> \<lparr>data = [1, 2]\<rparr>
     = Some \<lparr>data = [0xFFFFFFFFFFFFFFFF, 2]\<rparr> \<and>
   operator_eq \<lparr>data = [0, 4]\<rparr> \<lparr>data = [0, 4]\<rparr> \<and>
   operator_neq \<lparr>data = [0xFFFFFFFFFFFFFFFF, 2]\<rparr> \<lparr>data = [1, 2]\<rparr> \<and>
   subscript \<lparr>data = [0xFFFFFFFFFFFFFFFF, 2]\<rparr> (int 0) \<noteq> subscript \<lparr>data = [1, 2]\<rparr> (int 0)"
proof -
  let ?a = "\<lparr>data = [0xFFFFFFFFFFFFFFFF, 2 :: size_t]\<rparr>" and ?b = "\<lparr>data = [1, 2 :: size_t]\<rparr>"
  have a: "has_dim 2 ?a" and b: "has_dim 2 ?b" by (simp_all add: has_dim_def)
  have s1: "ooplace_op OpAdd 2 (\<lambda>_. 9) ?a ?b = Some \<lparr>data = [0, 4]\<rparr>" by code_simp
  have s2: "ooplace_op OpAdd 2 (\<lambda>_. 8) ?b ?a = Some \<lparr>data = [0, 4]\<rparr>" by code_simp
  have s3: "ooplace_op OpSub 2 (\<lambda>_. 8) \<lparr>data = [0, 4]\<rparr> ?b = Some ?a" by code_simp
  have d: "subscript ?a (int 0) \<noteq> subscript ?b (int 0)" by (simp add: subscript_def)
  then have "\<exists>i<2. subscript ?a (int i) \<noteq> subscript ?b (int i)" by (intro exI [of _ 0]) simp
  with static_array_algebra [OF a b, of "\<lambda>_. 9" "\<lambda>_. 8"] s1 s2
  have "operator_eq \<lparr>data = [0, 4 :: size_t]\<rparr> \<lparr>data = [0, 4]\<rparr>" and "operator_neq ?a ?b"
    by simp_all
  with a b s1 s2 s3 d show ?thesis by blast
qed

subsection \<open>Embedding and extraction\<close>

lemma embed_in_id3_cases:
  assumes "has_dim Dim idx"
  shows "Dim = 1 \<Longrightarrow> embed_in_id3 Dim idx = Some \<lparr>data = [0, 0, data idx ! 0]\<rparr>"
    and "Dim = 2 \<Longrightarrow> embed_in_id3 Dim idx = Some \<lparr>data = [0, data idx ! 0, data idx ! 1]\<rparr>"
    and "Dim = 3 \<Longrightarrow> embed_in_id3 Dim idx = Some idx"
  using assms by (simp_all add: embed_in_id3_def subscript_def has_dim_def static_array_3_def)

lemma embed_in_range3_cases:
  assumes "has_dim Dim r"
  shows "Dim = 1 \<Longrightarrow> embed_in_range3 Dim r = Some \<lparr>data = [1, 1, data r ! 0]\<rparr>"
    and "Dim = 2 \<Longrightarrow> embed_in_range3 Dim r = Some \<lparr>data = [1, data r ! 0, data r ! 1]\<rparr>"
    and "Dim = 3 \<Longrightarrow> embed_in_range3 Dim r = Some r"
  using assms by (simp_all add: embed_in_range3_def subscript_def has_dim_def static_array_3_def)

text \<open>
  Claim C2. \<open>embed_in_id3\<close> returns \<open>(0, 0, idx[0])\<close> for \<open>Dim = 1\<close>,
  \<open>(0, idx[0], idx[1])\<close> for \<open>Dim = 2\<close> and \<open>idx\<close> for \<open>Dim = 3\<close>; \<open>embed_in_range3\<close>
  returns \<open>(1, 1, r[0])\<close>, \<open>(1, r[0], r[1])\<close> and \<open>r\<close>.
\<close>

theorem embed_spec:
  assumes "has_dim Dim v"
  shows "(Dim = 1 \<longrightarrow> embed_in_id3 Dim v = Some \<lparr>data = [0, 0, data v ! 0]\<rparr> \<and>
                    embed_in_range3 Dim v = Some \<lparr>data = [1, 1, data v ! 0]\<rparr>) \<and>
         (Dim = 2 \<longrightarrow> embed_in_id3 Dim v = Some \<lparr>data = [0, data v ! 0, data v ! 1]\<rparr> \<and>
                    embed_in_range3 Dim v = Some \<lparr>data = [1, data v ! 0, data v ! 1]\<rparr>) \<and>
         (Dim = 3 \<longrightarrow> embed_in_id3 Dim v = Some v \<and> embed_in_range3 Dim v = Some v)"
  using embed_in_id3_cases [OF assms] embed_in_range3_cases [OF assms] by blast

lemma list_of_length_1: "length xs = 1 \<Longrightarrow> xs = [xs ! 0]"
  by (cases xs) simp_all

lemma list_of_length_2: "length xs = 2 \<Longrightarrow> xs = [xs ! 0, xs ! 1]"
  by (cases xs; cases "tl xs") simp_all

lemma list_of_length_3: "length xs = 3 \<Longrightarrow> xs = [xs ! 0, xs ! 1, xs ! 2]"
  by (cases xs; cases "tl xs"; cases "tl (tl xs)") simp_all

lemma static_array_1_one: "static_array_1 (Suc 0) junk x = \<lparr>data = [x]\<rparr>"
proof -
  have "data (static_array_1 (Suc 0) junk x) = [x]" by (simp add: static_array_1_data)
  then show ?thesis by (cases "static_array_1 (Suc 0) junk x") simp
qed

lemma sa_of_length_1: "has_dim 1 v \<Longrightarrow> \<lparr>data = [data v ! 0]\<rparr> = v"
  using list_of_length_1 [of "data v"] by (cases v) (simp add: has_dim_def)

lemma sa_of_length_2: "has_dim 2 v \<Longrightarrow> \<lparr>data = [data v ! 0, data v ! 1]\<rparr> = v"
  using list_of_length_2 [of "data v"] by (cases v) (simp add: has_dim_def)

lemma extract_embed_id3:
  assumes "has_dim Dim idx" and "1 \<le> Dim" and "Dim \<le> 3"
  shows "Option.bind (embed_in_id3 Dim idx) (extract_from_id3 Dim junk) = Some idx"
proof -
  consider "Dim = 1" | "Dim = 2" | "Dim = 3" using assms(2,3) by linarith
  then show ?thesis
  proof cases
    case 1
    with assms(1) have "has_dim 1 idx" by simp
    then have "\<lparr>data = [data idx ! 0]\<rparr> = idx" by (rule sa_of_length_1)
    then show ?thesis
      using 1 embed_in_id3_cases(1) [OF assms(1)]
      by (simp add: extract_from_id3_def subscript_def static_array_1_one)
  next
    case 2
    with assms(1) have "has_dim 2 idx" by simp
    then have "\<lparr>data = [data idx ! 0, data idx ! 1]\<rparr> = idx"
      by (rule sa_of_length_2)
    then show ?thesis
      using 2 embed_in_id3_cases(2) [OF assms(1)]
      by (simp add: extract_from_id3_def subscript_def static_array_2_def)
  next
    case 3
    then show ?thesis
      using embed_in_id3_cases(3) [OF assms(1)] by (simp add: extract_from_id3_def)
  qed
qed

lemma extract_embed_range3:
  assumes "has_dim Dim r" and "1 \<le> Dim" and "Dim \<le> 3"
  shows "Option.bind (embed_in_range3 Dim r) (extract_from_range3 Dim junk) = Some r"
proof -
  consider "Dim = 1" | "Dim = 2" | "Dim = 3" using assms(2,3) by linarith
  then show ?thesis
  proof cases
    case 1
    with assms(1) have "has_dim 1 r" by simp
    then have "\<lparr>data = [data r ! 0]\<rparr> = r" by (rule sa_of_length_1)
    then show ?thesis
      using 1 embed_in_range3_cases(1) [OF assms(1)]
      by (simp add: extract_from_range3_def subscript_def static_array_1_one)
  next
    case 2
    with assms(1) have "has_dim 2 r" by simp
    then have "\<lparr>data = [data r ! 0, data r ! 1]\<rparr> = r"
      by (rule sa_of_length_2)
    then show ?thesis
      using 2 embed_in_range3_cases(2) [OF assms(1)]
      by (simp add: extract_from_range3_def subscript_def static_array_2_def)
  next
    case 3
    then show ?thesis
      using embed_in_range3_cases(3) [OF assms(1)] by (simp add: extract_from_range3_def)
  qed
qed

text \<open>
  Claim C1. For \<open>Dim\<close> in \<open>{1, 2, 3}\<close> and every array \<open>v\<close> of that dimension,
  \<open>extract_from_id3<Dim>(embed_in_id3(v)) == v\<close> and
  \<open>extract_from_range3<Dim>(embed_in_range3(v)) == v\<close>.
\<close>

theorem extract_embed_roundtrip:
  assumes "has_dim Dim v" and "1 \<le> Dim" and "Dim \<le> 3"
  shows "(\<exists>e x. embed_in_id3 Dim v = Some e \<and>
               extract_from_id3 Dim junk e = Some x \<and> operator_eq x v) \<and>
         (\<exists>e x. embed_in_range3 Dim v = Some e \<and>
               extract_from_range3 Dim junk e = Some x \<and> operator_eq x v)"
proof
  have eq: "operator_eq v v" by (simp add: operator_eq_def)
  from extract_embed_id3 [OF assms, of junk]
  obtain e where "embed_in_id3 Dim v = Some e" "extract_from_id3 Dim junk e = Some v"
    by (auto simp: bind_eq_Some_conv)
  with eq show "\<exists>e x. embed_in_id3 Dim v = Some e \<and>
               extract_from_id3 Dim junk e = Some x \<and> operator_eq x v"
    by blast
  from extract_embed_range3 [OF assms, of junk]
  obtain e where "embed_in_range3 Dim v = Some e" "extract_from_range3 Dim junk e = Some v"
    by (auto simp: bind_eq_Some_conv)
  with eq show "\<exists>e x. embed_in_range3 Dim v = Some e \<and>
               extract_from_range3 Dim junk e = Some x \<and> operator_eq x v"
    by blast
qed

text \<open>C1 at \<open>v = (4, 5)\<close> and at \<open>v = (7)\<close>.\<close>

theorem extract_embed_roundtrip_witness:
  "has_dim 2 \<lparr>data = [4, 5]\<rparr> \<and> (1 :: nat) \<le> 2 \<and> (2 :: nat) \<le> 3 \<and>
   embed_in_id3 2 \<lparr>data = [4, 5]\<rparr> = Some \<lparr>data = [0, 4, 5]\<rparr> \<and>
   extract_from_id3 2 (\<lambda>_. 9) \<lparr>data = [0, 4, 5]\<rparr> = Some \<lparr>data = [4, 5]\<rparr> \<and>
   embed_in_range3 2 \<lparr>data = [4, 5]\<rparr> = Some \<lparr>data = [1, 4, 5]\<rparr> \<and>
   extract_from_range3 2 (\<lambda>_. 9) \<lparr>data = [1, 4, 5]\<rparr> = Some \<lparr>data = [4, 5]\<rparr> \<and>
   operator_eq \<lparr>data = [4, 5]\<rparr> \<lparr>data = [4, 5]\<rparr> \<and>
   has_dim 1 \<lparr>data = [7]\<rparr> \<and> (1 :: nat) \<le> 1 \<and> (1 :: nat) \<le> 3 \<and>
   embed_in_id3 1 \<lparr>data = [7]\<rparr> = Some \<lparr>data = [0, 0, 7]\<rparr> \<and>
   extract_from_id3 1 (\<lambda>_. 9) \<lparr>data = [0, 0, 7]\<rparr> = Some \<lparr>data = [7]\<rparr>"
proof -
  let ?v = "\<lparr>data = [4, 5 :: size_t]\<rparr>" and ?w = "\<lparr>data = [7 :: size_t]\<rparr>"
  have v: "has_dim 2 ?v" and w: "has_dim 1 ?w" by (simp_all add: has_dim_def)
  have e1: "embed_in_id3 2 ?v = Some \<lparr>data = [0, 4, 5]\<rparr>" by code_simp
  have e2: "embed_in_range3 2 ?v = Some \<lparr>data = [1, 4, 5]\<rparr>" by code_simp
  have e3: "embed_in_id3 1 ?w = Some \<lparr>data = [0, 0, 7]\<rparr>" by code_simp
  from extract_embed_roundtrip [OF v, of "\<lambda>_. 9"] e1 e2
  have "\<exists>x. extract_from_id3 2 (\<lambda>_. 9) \<lparr>data = [0, 4, 5]\<rparr> = Some x \<and> operator_eq x ?v"
    and "\<exists>x. extract_from_range3 2 (\<lambda>_. 9) \<lparr>data = [1, 4, 5]\<rparr> = Some x \<and> operator_eq x ?v"
    by simp_all
  then have x12: "extract_from_id3 2 (\<lambda>_. 9) \<lparr>data = [0, 4, 5]\<rparr> = Some ?v"
    "extract_from_range3 2 (\<lambda>_. 9) \<lparr>data = [1, 4, 5]\<rparr> = Some ?v"
    by (auto simp: operator_eq_def)
  from extract_embed_roundtrip [OF w, of "\<lambda>_. 9"] e3
  have "\<exists>x. extract_from_id3 1 (\<lambda>_. 9) \<lparr>data = [0, 0, 7]\<rparr> = Some x \<and> operator_eq x ?w"
    by simp
  then have x3: "extract_from_id3 1 (\<lambda>_. 9) \<lparr>data = [0, 0, 7]\<rparr> = Some ?w"
    by (auto simp: operator_eq_def)
  from v w e1 e2 e3 x12 x3 show ?thesis by (simp add: operator_eq_def)
qed

text \<open>C2 at \<open>(7)\<close>, \<open>(4, 5)\<close> and \<open>(2, 3, 4)\<close>.\<close>

theorem embed_spec_witness:
  "has_dim 1 \<lparr>data = [7]\<rparr> \<and>
   embed_in_id3 1 \<lparr>data = [7]\<rparr> = Some \<lparr>data = [0, 0, 7]\<rparr> \<and>
   embed_in_range3 1 \<lparr>data = [7]\<rparr> = Some \<lparr>data = [1, 1, 7]\<rparr> \<and>
   has_dim 2 \<lparr>data = [4, 5]\<rparr> \<and>
   embed_in_id3 2 \<lparr>data = [4, 5]\<rparr> = Some \<lparr>data = [0, 4, 5]\<rparr> \<and>
   embed_in_range3 2 \<lparr>data = [4, 5]\<rparr> = Some \<lparr>data = [1, 4, 5]\<rparr> \<and>
   has_dim 3 \<lparr>data = [2, 3, 4]\<rparr> \<and>
   embed_in_id3 3 \<lparr>data = [2, 3, 4]\<rparr> = Some \<lparr>data = [2, 3, 4]\<rparr> \<and>
   embed_in_range3 3 \<lparr>data = [2, 3, 4]\<rparr> = Some \<lparr>data = [2, 3, 4]\<rparr>"
proof -
  have d: "has_dim 1 \<lparr>data = [7]\<rparr>" "has_dim 2 \<lparr>data = [4, 5]\<rparr>"
    "has_dim 3 \<lparr>data = [2, 3, 4]\<rparr>"
    by (simp_all add: has_dim_def)
  from embed_spec [OF d(1)] embed_spec [OF d(2)] embed_spec [OF d(3)] d
  show ?thesis by simp
qed

text \<open>
  Claim C3. For \<open>Dim\<close> in \<open>{1, 2, 3}\<close> and every range \<open>r\<close> of that dimension,
  \<open>embed_in_range3(r).size() == r.size()\<close>.
\<close>

theorem embed_in_range3_size:
  assumes "has_dim Dim r" and "1 \<le> Dim" and "Dim \<le> 3"
  shows "\<exists>e. embed_in_range3 Dim r = Some e \<and> size_sa 3 e = size_sa Dim r"
proof -
  consider "Dim = 1" | "Dim = 2" | "Dim = 3" using assms(2,3) by linarith
  then show ?thesis
  proof cases
    case 1
    let ?e = "\<lparr>data = [1, 1, data r ! 0]\<rparr>"
    from 1 assms(1) have "has_dim 1 r" by simp
    then have r: "data r = [data r ! 0]"
      by (intro list_of_length_1) (simp add: has_dim_def)
    have "size_sa 3 ?e = data r ! 0" by (simp add: size_sa_prod has_dim_def)
    also have "\<dots> = prod_list (data r)" by (subst (2) r) simp
    also have "\<dots> = size_sa Dim r" using assms(1) by (simp add: size_sa_prod)
    finally show ?thesis using embed_in_range3_cases(1) [OF assms(1) 1] by simp
  next
    case 2
    let ?e = "\<lparr>data = [1, data r ! 0, data r ! 1]\<rparr>"
    from 2 assms(1) have "has_dim 2 r" by simp
    then have r: "data r = [data r ! 0, data r ! 1]"
      by (intro list_of_length_2) (simp add: has_dim_def)
    have "size_sa 3 ?e = data r ! 0 * data r ! 1" by (simp add: size_sa_prod has_dim_def)
    also have "\<dots> = prod_list (data r)" by (subst (3) r) simp
    also have "\<dots> = size_sa Dim r" using assms(1) by (simp add: size_sa_prod)
    finally show ?thesis using embed_in_range3_cases(2) [OF assms(1) 2] by simp
  next
    case 3
    then show ?thesis using embed_in_range3_cases(3) [OF assms(1)] by simp
  qed
qed

text \<open>C3 at \<open>r = (4, 5)\<close>: the embedding is \<open>(1, 4, 5)\<close> and both sizes are \<open>20\<close>.\<close>

theorem embed_in_range3_size_witness:
  "has_dim 2 \<lparr>data = [4, 5]\<rparr> \<and> (1 :: nat) \<le> 2 \<and> (2 :: nat) \<le> 3 \<and>
   embed_in_range3 2 \<lparr>data = [4, 5]\<rparr> = Some \<lparr>data = [1, 4, 5]\<rparr> \<and>
   size_sa 3 \<lparr>data = [1, 4, 5]\<rparr> = 20 \<and> size_sa 2 \<lparr>data = [4, 5]\<rparr> = 20"
proof -
  let ?r = "\<lparr>data = [4, 5 :: size_t]\<rparr>"
  have r: "has_dim 2 ?r" by (simp add: has_dim_def)
  have e: "embed_in_range3 2 ?r = Some \<lparr>data = [1, 4, 5]\<rparr>" by code_simp
  have s: "size_sa 2 ?r = 20" by code_simp
  from embed_in_range3_size [OF r] e s
  have "size_sa 3 \<lparr>data = [1, 4, 5]\<rparr> = 20" by simp
  with r e s show ?thesis by simp
qed

end
